theory Spec2Isabelle
  imports Main
begin

section \<open>Data model of the edit page\<close>

text \<open>
  The patient edit page (\<^verbatim>\<open>src/app/(protected)/patients/edit/[id]/page.tsx\<close>) keeps a
  \<^verbatim>\<open>Partial<IPatient>\<close> in React state. A timestamp is a JavaScript \<^verbatim>\<open>Date | string\<close>:
  the page holds \<^verbatim>\<open>Date\<close> objects (\<open>DateObj\<close>), a JSON copy holds their ISO-8601 strings
  (\<open>IsoString\<close>). Either carries the time value in milliseconds it denotes; invalid dates
  are outside the model. The members of a history record that the page never reads are
  kept as a list of keys and values. A member of a partial object that is \<^verbatim>\<open>undefined\<close>
  or absent is \<open>None\<close>.

  A JavaScript object keeps its members in the order in which they were inserted, and
  \<^verbatim>\<open>JSON.stringify\<close> writes them in that order. \<open>member_order\<close> lists the keys of a history
  record in that order. A key that it does not list comes after the listed ones: first
  \<^verbatim>\<open>timestamp\<close>, then the other members as \<open>other_fields\<close> has them, then
  \<^verbatim>\<open>document_urls\<close>. So a spread that sets a member, \<^verbatim>\<open>{...record, document_urls: v}\<close>, is
  the record update \<open>record\<lparr>document_urls := v\<rparr>\<close>: a member that is listed keeps its
  place, and \<^verbatim>\<open>document_urls\<close> set on an object that has none comes last. Keys that are
  array indices, which JavaScript writes first, do not occur in these objects. The
  members of a patient object are written in one fixed order: every patient object of the
  page is a spread of the loaded one, a spread keeps the members it finds in their places
  and never removes one, so buffer and snapshot can differ in the order of their members
  only when they differ in the members they have.
\<close>

type_synonym url = string

datatype jsdate = DateObj int | IsoString int

fun getTime :: "jsdate \<Rightarrow> int" where
  "getTime (DateObj t) = t"
| "getTime (IsoString t) = t"

record IHistoryRecord =
  timestamp :: jsdate
  document_urls :: "url list option"
  other_fields :: "(string \<times> string) list"
  member_order :: "string list"

record IPatient =
  ident :: "string option"
  name :: "string option"
  HN_code :: "string option"
  ID_code :: "string option"
  lastVisit :: "jsdate option"
  history :: "IHistoryRecord list option"

subsection \<open>JavaScript array helpers\<close>

text \<open>\<^verbatim>\<open>xs[i]\<close> for a JavaScript number \<open>i\<close>: \<^verbatim>\<open>undefined\<close> outside the array.\<close>

definition js_nth :: "'a list \<Rightarrow> int \<Rightarrow> 'a option" where
  "js_nth xs i = (if 0 \<le> i \<and> i < int (length xs) then Some (xs ! nat i) else None)"

text \<open>\<^verbatim>\<open>xs.filter((_, i) => P(i))\<close>: a filter on the index.\<close>

definition filter_index :: "(int \<Rightarrow> bool) \<Rightarrow> 'a list \<Rightarrow> 'a list" where
  "filter_index P xs =
     map snd (filter (\<lambda>(i, x). P i) (zip (map int [0..<length xs]) xs))"

text \<open>A JavaScript string is truthy when it is defined and not empty.\<close>

fun truthy :: "string option \<Rightarrow> bool" where
  "truthy None = False"
| "truthy (Some s) = (s \<noteq> [])"

subsection \<open>The callbacks handed to the document manager\<close>

text \<open>
  \<^verbatim>\<open>getActualRecordIndex\<close> returns the display index unchanged, since records are no
  longer removed from state before saving.
\<close>

definition getActualRecordIndex :: "int \<Rightarrow> int" where
  "getActualRecordIndex displayIndex = displayIndex"

definition onAddDocument :: "int \<Rightarrow> url \<Rightarrow> IPatient \<Rightarrow> IPatient" where
  "onAddDocument recordIndex u prev =
     (case history prev of
        None \<Rightarrow> prev
      | Some h \<Rightarrow>
          let actualIndex = getActualRecordIndex recordIndex in
          if actualIndex < 0 \<or> actualIndex \<ge> int (length h) then prev
          else (case js_nth h actualIndex of
                  None \<Rightarrow> prev
                | Some r \<Rightarrow>
                    prev\<lparr>history := Some (h[nat actualIndex :=
                      r\<lparr>document_urls :=
                          Some ((case document_urls r of None \<Rightarrow> [] | Some ds \<Rightarrow> ds) @ [u])\<rparr>])\<rparr>))"

definition onRemoveDocument :: "int \<Rightarrow> int \<Rightarrow> IPatient \<Rightarrow> IPatient" where
  "onRemoveDocument recordIndex documentIndex prev =
     (case history prev of
        None \<Rightarrow> prev
      | Some h \<Rightarrow>
          let actualIndex = getActualRecordIndex recordIndex in
          if actualIndex < 0 \<or> actualIndex \<ge> int (length h) then prev
          else (case js_nth h actualIndex of
                  None \<Rightarrow> prev
                | Some r \<Rightarrow>
                    (case document_urls r of
                       None \<Rightarrow> prev
                     | Some ds \<Rightarrow>
                         if documentIndex < 0 \<or> documentIndex \<ge> int (length ds) then prev
                         else prev\<lparr>history := Some (h[nat actualIndex :=
                                r\<lparr>document_urls :=
                                    Some (filter_index (\<lambda>i. i \<noteq> documentIndex) ds)\<rparr>])\<rparr>)))"

text \<open>Bounds as the claims speak of them.\<close>

definition record_in_bounds :: "IPatient \<Rightarrow> int \<Rightarrow> bool" where
  "record_in_bounds p i =
     (case history p of None \<Rightarrow> False | Some h \<Rightarrow> 0 \<le> i \<and> i < int (length h))"

definition document_in_bounds :: "IPatient \<Rightarrow> int \<Rightarrow> int \<Rightarrow> bool" where
  "document_in_bounds p i d =
     (case history p of
        None \<Rightarrow> False
      | Some h \<Rightarrow>
          (case js_nth h i of
             None \<Rightarrow> False
           | Some r \<Rightarrow>
               (case document_urls r of
                  None \<Rightarrow> False
                | Some ds \<Rightarrow> 0 \<le> d \<and> d < int (length ds))))"

subsection \<open>Ordering the history\<close>

text \<open>
  \<^verbatim>\<open>xs.sort((a, b) => new Date(b.timestamp).getTime() - new Date(a.timestamp).getTime())\<close>:
  a stable sort, newest record first.
\<close>

definition sortNewestFirst :: "IHistoryRecord list \<Rightarrow> IHistoryRecord list" where
  "sortNewestFirst h = sort_key (\<lambda>r. - getTime (timestamp r)) h"

definition newestFirst :: "IHistoryRecord list \<Rightarrow> bool" where
  "newestFirst h = sorted_wrt (\<lambda>a b. getTime (timestamp a) \<ge> getTime (timestamp b)) h"

text \<open>
  \<^verbatim>\<open>xs[i] = v\<close> on a copy of the array. A negative index sets a property and leaves the
  elements alone, the index \<open>length xs\<close> appends, and a larger index leaves holes in the
  array, which a list cannot hold: that case is \<open>None\<close>.
\<close>

definition js_assign :: "'a list \<Rightarrow> int \<Rightarrow> 'a \<Rightarrow> 'a list option" where
  "js_assign xs i v =
     (if i < 0 then Some xs
      else if i < int (length xs) then Some (xs[nat i := v])
      else if i = int (length xs) then Some (xs @ [v])
      else None)"

subsection \<open>Medical history handlers\<close>

definition handleAddRecord :: "IHistoryRecord \<Rightarrow> IPatient \<Rightarrow> IPatient" where
  "handleAddRecord newRecord prev =
     (let updatedHistory = (case history prev of None \<Rightarrow> [] | Some h \<Rightarrow> h) @ [newRecord];
          sortedHistory = sortNewestFirst updatedHistory
      in prev\<lparr>history := Some sortedHistory\<rparr>)"

definition handleUpdateRecord :: "int \<Rightarrow> IHistoryRecord \<Rightarrow> IPatient \<Rightarrow> IPatient option" where
  "handleUpdateRecord index updatedRecord prev =
     (case history prev of
        None \<Rightarrow> Some prev
      | Some h \<Rightarrow>
          (case js_assign h index updatedRecord of
             None \<Rightarrow> None
           | Some updatedHistory \<Rightarrow> Some (prev\<lparr>history := Some updatedHistory\<rparr>)))"

definition handleUpdateRecordDate :: "int \<Rightarrow> jsdate \<Rightarrow> IPatient \<Rightarrow> IPatient option" where
  "handleUpdateRecordDate index newDate prev =
     (case history prev of
        None \<Rightarrow> Some prev
      | Some h \<Rightarrow>
          (let r = (case js_nth h index of
                      None \<Rightarrow> \<lparr>timestamp = newDate, document_urls = None, other_fields = [],
                                member_order = [''timestamp'']\<rparr>
                    | Some old \<Rightarrow> old\<lparr>timestamp := newDate\<rparr>)
           in case js_assign h index r of
                None \<Rightarrow> None
              | Some updatedHistory \<Rightarrow>
                  Some (prev\<lparr>history := Some (sortNewestFirst updatedHistory)\<rparr>)))"

subsection \<open>JSON copies and comparison\<close>

text \<open>
  \<^verbatim>\<open>JSON.stringify\<close> is modelled by the JSON tree it writes, \<open>JIso t\<close> being the string
  that holds the ISO-8601 form of the time value \<open>t\<close>. The members of an object are
  written in the order of their keys, and a member that is \<^verbatim>\<open>undefined\<close> is left out.
\<close>

datatype json = JStr string | JIso int | JArr "json list" | JObj "(string \<times> json) list"

fun member :: "string \<Rightarrow> json option \<Rightarrow> (string \<times> json) list" where
  "member k None = []"
| "member k (Some j) = [(k, j)]"

definition members_of :: "(string \<Rightarrow> json option) \<Rightarrow> string list \<Rightarrow> (string \<times> json) list" where
  "members_of g ks = concat (map (\<lambda>k. member k (g k)) ks)"

text \<open>
  The keys of a history record in the order of insertion, each key once: the keys that
  \<open>member_order\<close> lists, then \<^verbatim>\<open>timestamp\<close>, the keys of the other members and
  \<^verbatim>\<open>document_urls\<close> as far as they are not listed. The value of a key is the typed member
  for the two names the page reads, and the first entry of \<open>other_fields\<close> for any
  other key.
\<close>

fun first_occurrences :: "'a list \<Rightarrow> 'a list \<Rightarrow> 'a list" where
  "first_occurrences seen [] = []"
| "first_occurrences seen (x # xs) =
     (if x \<in> set seen then first_occurrences seen xs
      else x # first_occurrences (x # seen) xs)"

definition key_order :: "IHistoryRecord \<Rightarrow> string list" where
  "key_order r =
     first_occurrences []
       (member_order r @ ''timestamp'' # map fst (other_fields r) @ [''document_urls''])"

definition reserved :: "string \<Rightarrow> bool" where
  "reserved k = (k = ''timestamp'' \<or> k = ''document_urls'')"

definition member_value :: "IHistoryRecord \<Rightarrow> string \<Rightarrow> json option" where
  "member_value r k =
     (if k = ''timestamp'' then Some (JIso (getTime (timestamp r)))
      else if k = ''document_urls''
      then map_option (\<lambda>ds. JArr (map JStr ds)) (document_urls r)
      else map_option JStr (map_of (other_fields r) k))"

definition stringify_record :: "IHistoryRecord \<Rightarrow> json" where
  "stringify_record r = JObj (members_of (member_value r) (key_order r))"

definition stringify :: "IPatient \<Rightarrow> json" where
  "stringify p =
     JObj (member ''_id'' (map_option JStr (ident p))
           @ member ''name'' (map_option JStr (name p))
           @ member ''HN_code'' (map_option JStr (HN_code p))
           @ member ''ID_code'' (map_option JStr (ID_code p))
           @ member ''lastVisit'' (map_option (\<lambda>d. JIso (getTime d)) (lastVisit p))
           @ member ''history'' (map_option (\<lambda>h. JArr (map stringify_record h)) (history p)))"

text \<open>
  \<^verbatim>\<open>JSON.parse\<close> of what \<^verbatim>\<open>JSON.stringify\<close> has written: the members in the order of the
  text, a date as its ISO string. A tree that is not the serialisation of a record or of a
  patient is outside the model and gives an object without members.
\<close>

fun json_string :: "json \<Rightarrow> string list" where
  "json_string (JStr s) = [s]"
| "json_string (JIso t) = []"
| "json_string (JArr js) = []"
| "json_string (JObj ms) = []"

fun string_member :: "string \<times> json \<Rightarrow> (string \<times> string) list" where
  "string_member (k, JStr v) = (if reserved k then [] else [(k, v)])"
| "string_member (k, JIso t) = []"
| "string_member (k, JArr js) = []"
| "string_member (k, JObj ms) = []"

fun json_text :: "json option \<Rightarrow> string option" where
  "json_text (Some (JStr s)) = Some s"
| "json_text (Some (JIso t)) = None"
| "json_text (Some (JArr js)) = None"
| "json_text (Some (JObj ms)) = None"
| "json_text None = None"

fun json_date :: "json option \<Rightarrow> jsdate option" where
  "json_date (Some (JIso t)) = Some (IsoString t)"
| "json_date (Some (JStr s)) = None"
| "json_date (Some (JArr js)) = None"
| "json_date (Some (JObj ms)) = None"
| "json_date None = None"

fun json_strings :: "json option \<Rightarrow> string list option" where
  "json_strings (Some (JArr js)) = Some (concat (map json_string js))"
| "json_strings (Some (JStr s)) = None"
| "json_strings (Some (JIso t)) = None"
| "json_strings (Some (JObj ms)) = None"
| "json_strings None = None"

fun parse_record :: "json \<Rightarrow> IHistoryRecord" where
  "parse_record (JObj ms) =
     \<lparr>timestamp = (case json_date (map_of ms ''timestamp'') of
                     None \<Rightarrow> IsoString 0
                   | Some d \<Rightarrow> d),
      document_urls = json_strings (map_of ms ''document_urls''),
      other_fields = concat (map string_member ms),
      member_order = map fst ms\<rparr>"
| "parse_record (JStr s) =
     \<lparr>timestamp = IsoString 0, document_urls = None, other_fields = [], member_order = []\<rparr>"
| "parse_record (JIso t) =
     \<lparr>timestamp = IsoString 0, document_urls = None, other_fields = [], member_order = []\<rparr>"
| "parse_record (JArr js) =
     \<lparr>timestamp = IsoString 0, document_urls = None, other_fields = [], member_order = []\<rparr>"

fun json_records :: "json option \<Rightarrow> IHistoryRecord list option" where
  "json_records (Some (JArr js)) = Some (map parse_record js)"
| "json_records (Some (JStr s)) = None"
| "json_records (Some (JIso t)) = None"
| "json_records (Some (JObj ms)) = None"
| "json_records None = None"

fun parse :: "json \<Rightarrow> IPatient" where
  "parse (JObj ms) =
     \<lparr>ident = json_text (map_of ms ''_id''),
      name = json_text (map_of ms ''name''),
      HN_code = json_text (map_of ms ''HN_code''),
      ID_code = json_text (map_of ms ''ID_code''),
      lastVisit = json_date (map_of ms ''lastVisit''),
      history = json_records (map_of ms ''history'')\<rparr>"
| "parse (JStr s) =
     \<lparr>ident = None, name = None, HN_code = None, ID_code = None, lastVisit = None,
      history = None\<rparr>"
| "parse (JIso t) =
     \<lparr>ident = None, name = None, HN_code = None, ID_code = None, lastVisit = None,
      history = None\<rparr>"
| "parse (JArr js) =
     \<lparr>ident = None, name = None, HN_code = None, ID_code = None, lastVisit = None,
      history = None\<rparr>"

text \<open>The other members a copy of a record has: those a key of the record leads to.\<close>

definition listed_fields :: "IHistoryRecord \<Rightarrow> string list \<Rightarrow> (string \<times> string) list" where
  "listed_fields r ks =
     concat (map (\<lambda>k. if reserved k then []
                       else (case map_of (other_fields r) k of None \<Rightarrow> [] | Some v \<Rightarrow> [(k, v)])) ks)"

text \<open>\<^verbatim>\<open>JSON.parse(JSON.stringify(x))\<close>, the page's deep copy.\<close>

definition deepCopy_record :: "IHistoryRecord \<Rightarrow> IHistoryRecord" where
  "deepCopy_record r = parse_record (stringify_record r)"

definition deepCopy :: "IPatient \<Rightarrow> IPatient" where
  "deepCopy p = parse (stringify p)"

section \<open>The edit session\<close>

text \<open>
  Remote storage is a parameter: a state \<open>'st\<close> and a delete call
  \<open>del :: url \<Rightarrow> 'st \<Rightarrow> bool \<times> 'st\<close> that reports success or failure. Every call that
  leaves the page is written to a trace, oldest first.
\<close>

datatype event = RemoteDelete url bool | SavePatient IPatient bool

text \<open>
  Modelled from the spec: the \<^verbatim>\<open>DocumentOperation\<close> type of the \<^verbatim>\<open>useDocumentManager\<close> hook,
  which is not among the sources. The page shows its three kinds (\<^verbatim>\<open>add\<close>, \<^verbatim>\<open>remove\<close>,
  \<^verbatim>\<open>remove_record\<close>); the constructors follow section 3 of the spec.
\<close>

datatype PendingOperation =
    Attach int url
  | Detach int url
  | DeleteRecord int "url list"

text \<open>
  One record holds the React state of the page (\<open>patient\<close> to \<open>showDiscardConfirmation\<close>),
  the clinic of the query string, the route and the alerts shown, the log of the hook, and
  the world outside: storage, the trace, and the patient data last persisted.
\<close>

record 'st session =
  patient :: IPatient
  originalPatient :: "IPatient option"
  hasUnsavedChanges :: bool
  isSaving :: bool
  isRollbackInProgress :: bool
  showDiscardConfirmation :: bool
  clinicId :: "string option"
  location :: string
  alerts :: "string list"
  pendingOperations :: "PendingOperation list"
  remote :: 'st
  trace :: "event list"
  persisted :: "IPatient option"

text \<open>The state of a freshly mounted page: the \<^verbatim>\<open>useState\<close> initial values, an empty log.\<close>

definition initialState :: "string option \<Rightarrow> 'st \<Rightarrow> 'st session" where
  "initialState cid st =
     \<lparr>patient = \<lparr>ident = None, name = Some [], HN_code = Some [], ID_code = Some [],
                  lastVisit = None, history = Some []\<rparr>,
      originalPatient = None, hasUnsavedChanges = False, isSaving = False,
      isRollbackInProgress = False, showDiscardConfirmation = False, clinicId = cid,
      location = ''/patients/edit'', alerts = [], pendingOperations = [], remote = st,
      trace = [], persisted = None\<rparr>"

subsection \<open>The pending operation log\<close>

text \<open>
  Modelled from the spec: the (recordIndex, attachmentRef) pairs an entry of the absent
  hook's log refers to (section 4.2); a \<open>DeleteRecord\<close> refers to one pair for each
  attachment it lists. Two entries have the same target when they share a pair.
\<close>

fun pairs_of :: "PendingOperation \<Rightarrow> (int \<times> url) list" where
  "pairs_of (Attach i u) = [(i, u)]"
| "pairs_of (Detach i u) = [(i, u)]"
| "pairs_of (DeleteRecord i us) = map (Pair i) us"

definition references :: "(int \<times> url) \<Rightarrow> PendingOperation \<Rightarrow> bool" where
  "references p e = (p \<in> set (pairs_of e))"

definition same_target :: "PendingOperation \<Rightarrow> PendingOperation \<Rightarrow> bool" where
  "same_target a b = list_ex (\<lambda>p. references p b) (pairs_of a)"

text \<open>
  Modelled from the spec: recording an operation in the log of the absent hook. Section 4.2
  has a new operation on a (recordIndex, attachmentRef) pair replace the entry that is
  pending for that pair instead of stacking on it.
\<close>

definition record_operation :: "PendingOperation \<Rightarrow> PendingOperation list \<Rightarrow> PendingOperation list" where
  "record_operation e ops = filter (\<lambda>x. \<not> same_target x e) ops @ [e]"

text \<open>The invariant of section 4.2: no pair is referred to by two entries of the log.\<close>

definition at_most_one_entry_per_pair :: "PendingOperation list \<Rightarrow> bool" where
  "at_most_one_entry_per_pair ops =
     list_all (\<lambda>p. length (filter (references p) ops) \<le> 1) (concat (map pairs_of ops))"

text \<open>
  Modelled from the spec: \<^verbatim>\<open>addDocumentWithRollback\<close> of the absent hook, section 4.2
  \<^verbatim>\<open>recordAttach\<close>: the reference is linked into the buffer at once, through the page's
  \<^verbatim>\<open>onAddDocument\<close> callback, and an \<open>Attach\<close> entry is recorded. No remote call.
\<close>

definition addDocumentWithRollback :: "int \<Rightarrow> url \<Rightarrow> 'st session \<Rightarrow> 'st session" where
  "addDocumentWithRollback recordIndex u s =
     s\<lparr>patient := onAddDocument recordIndex u (patient s),
       pendingOperations := record_operation (Attach recordIndex u) (pendingOperations s)\<rparr>"

text \<open>
  Modelled from the spec: \<^verbatim>\<open>removeDocumentWithDeferred\<close> of the absent hook, section 4.2
  \<^verbatim>\<open>recordDetach\<close>: the link leaves the buffer, through the page's \<^verbatim>\<open>onRemoveDocument\<close>
  callback, and a \<open>Detach\<close> entry is recorded; the remote object is not deleted yet.
\<close>

definition removeDocumentWithDeferred :: "int \<Rightarrow> int \<Rightarrow> url \<Rightarrow> 'st session \<Rightarrow> 'st session" where
  "removeDocumentWithDeferred recordIndex documentIndex u s =
     s\<lparr>patient := onRemoveDocument recordIndex documentIndex (patient s),
       pendingOperations := record_operation (Detach recordIndex u) (pendingOperations s)\<rparr>"

text \<open>
  Modelled from the spec: \<^verbatim>\<open>markRecordForDeletion\<close> of the absent hook, section 4.2
  \<^verbatim>\<open>recordRecordDeletion\<close>: a \<open>DeleteRecord\<close> entry with the attachments the record carries
  at that moment; the entry is the flag on the record.
\<close>

definition markRecordForDeletion :: "int \<Rightarrow> url list \<Rightarrow> 'st session \<Rightarrow> 'st session" where
  "markRecordForDeletion recordIndex us s =
     s\<lparr>pendingOperations := record_operation (DeleteRecord recordIndex us) (pendingOperations s)\<rparr>"

fun is_DeleteRecord_at :: "int \<Rightarrow> PendingOperation \<Rightarrow> bool" where
  "is_DeleteRecord_at i (DeleteRecord j us) = (i = j)"
| "is_DeleteRecord_at i (Attach j u) = False"
| "is_DeleteRecord_at i (Detach j u) = False"

text \<open>
  Modelled from the spec: \<^verbatim>\<open>isRecordMarkedForDeletion\<close> of the absent hook (section 6):
  a record is marked while a \<open>DeleteRecord\<close> entry for its index is pending.
\<close>

definition isRecordMarkedForDeletion :: "'st session \<Rightarrow> int \<Rightarrow> bool" where
  "isRecordMarkedForDeletion s i = list_ex (is_DeleteRecord_at i) (pendingOperations s)"

subsection \<open>Remote sweeps\<close>

text \<open>
  One remote delete per reference, in order, each awaited before the next; a failure does
  not stop the sweep. The result lists every reference with its outcome.
\<close>

fun deleteAll :: "(url \<Rightarrow> 'st \<Rightarrow> bool \<times> 'st) \<Rightarrow> url list \<Rightarrow> 'st \<Rightarrow> (url \<times> bool) list \<times> 'st" where
  "deleteAll del [] st = ([], st)"
| "deleteAll del (u # us) st =
     (case del u st of (ok, st') \<Rightarrow>
        (case deleteAll del us st' of (rs, st'') \<Rightarrow> ((u, ok) # rs, st'')))"

definition succeeded :: "(url \<times> bool) list \<Rightarrow> nat" where
  "succeeded rs = length (filter snd rs)"

definition failures :: "(url \<times> bool) list \<Rightarrow> url list" where
  "failures rs = map fst (filter (\<lambda>r. \<not> snd r) rs)"

definition events_of :: "(url \<times> bool) list \<Rightarrow> event list" where
  "events_of rs = map (\<lambda>(u, ok). RemoteDelete u ok) rs"

subsection \<open>Commit and rollback of the log\<close>

text \<open>
  Modelled from the spec: the summary a commit of the absent hook returns (section 4.3),
  the operations committed and failed of each kind and the identifiers left in storage.
\<close>

record CommitSummary =
  attachCommitted :: nat
  detachCommitted :: nat
  detachFailed :: nat
  deleteRecordCommitted :: nat
  deleteRecordFailed :: nat
  orphaned :: "url list"

definition noCommits :: CommitSummary where
  "noCommits = \<lparr>attachCommitted = 0, detachCommitted = 0, detachFailed = 0,
                deleteRecordCommitted = 0, deleteRecordFailed = 0, orphaned = []\<rparr>"

text \<open>
  Modelled from the spec: one step of \<^verbatim>\<open>commitPendingOperations\<close> of the absent hook,
  section 4.3. An \<open>Attach\<close> needs no remote action. A \<open>Detach\<close> deletes the remote object;
  when that fails the reference goes back into the record (the hook reaches the buffer
  through \<^verbatim>\<open>onAddDocument\<close>) and the failure is counted. A \<open>DeleteRecord\<close> deletes every
  listed attachment, going on past failures, and reports the identifiers left in storage.
\<close>

fun commit_entry ::
  "(url \<Rightarrow> 'st \<Rightarrow> bool \<times> 'st) \<Rightarrow> PendingOperation \<Rightarrow> 'st session \<times> CommitSummary
     \<Rightarrow> 'st session \<times> CommitSummary" where
  "commit_entry del (Attach i u) (s, sm) =
     (s, sm\<lparr>attachCommitted := attachCommitted sm + 1\<rparr>)"
| "commit_entry del (Detach i u) (s, sm) =
     (case del u (remote s) of (ok, st') \<Rightarrow>
        let s' = s\<lparr>remote := st', trace := trace s @ [RemoteDelete u ok]\<rparr> in
        if ok then (s', sm\<lparr>detachCommitted := detachCommitted sm + 1\<rparr>)
        else (s'\<lparr>patient := onAddDocument i u (patient s')\<rparr>,
              sm\<lparr>detachFailed := detachFailed sm + 1, orphaned := orphaned sm @ [u]\<rparr>))"
| "commit_entry del (DeleteRecord i us) (s, sm) =
     (case deleteAll del us (remote s) of (rs, st') \<Rightarrow>
        let s' = s\<lparr>remote := st', trace := trace s @ events_of rs\<rparr> in
        if failures rs = [] then (s', sm\<lparr>deleteRecordCommitted := deleteRecordCommitted sm + 1\<rparr>)
        else (s', sm\<lparr>deleteRecordFailed := deleteRecordFailed sm + 1,
                      orphaned := orphaned sm @ failures rs\<rparr>))"

fun commit_entries ::
  "(url \<Rightarrow> 'st \<Rightarrow> bool \<times> 'st) \<Rightarrow> PendingOperation list \<Rightarrow> 'st session \<times> CommitSummary
     \<Rightarrow> 'st session \<times> CommitSummary" where
  "commit_entries del [] x = x"
| "commit_entries del (e # es) x = commit_entries del es (commit_entry del e x)"

text \<open>
  Modelled from the spec: \<^verbatim>\<open>commitPendingOperations\<close> of the absent hook: the log is
  processed in recorded order and cleared; remote failures never throw.
\<close>

definition commitPendingOperations ::
  "(url \<Rightarrow> 'st \<Rightarrow> bool \<times> 'st) \<Rightarrow> 'st session \<Rightarrow> 'st session \<times> CommitSummary" where
  "commitPendingOperations del s =
     (case commit_entries del (pendingOperations s) (s, noCommits) of
        (s', sm) \<Rightarrow> (s'\<lparr>pendingOperations := []\<rparr>, sm))"

text \<open>\<^verbatim>\<open>xs.indexOf(x)\<close>: the first position of \<open>x\<close>, or \<open>-1\<close>.\<close>

fun indexOf :: "'a list \<Rightarrow> 'a \<Rightarrow> int" where
  "indexOf [] x = - 1"
| "indexOf (y # ys) x =
     (if x = y then 0 else (let k = indexOf ys x in if k < 0 then - 1 else k + 1))"

text \<open>
  Modelled from the spec: unlinking a reference from a record of the buffer, through the
  page's \<^verbatim>\<open>onRemoveDocument\<close> callback at the position of the reference.
\<close>

definition unlink :: "int \<Rightarrow> url \<Rightarrow> IPatient \<Rightarrow> IPatient" where
  "unlink i u p =
     (case history p of
        None \<Rightarrow> p
      | Some h \<Rightarrow>
          (case js_nth h i of
             None \<Rightarrow> p
           | Some r \<Rightarrow>
               (case document_urls r of
                  None \<Rightarrow> p
                | Some ds \<Rightarrow> onRemoveDocument i (indexOf ds u) p)))"

text \<open>
  Modelled from the spec: the summary a rollback of the absent hook returns (section 4.3).
\<close>

record RollbackSummary =
  attachReverted :: nat
  attachFailed :: nat
  detachReverted :: nat
  deleteRecordReverted :: nat
  notDeleted :: "url list"

definition noRollbacks :: RollbackSummary where
  "noRollbacks = \<lparr>attachReverted = 0, attachFailed = 0, detachReverted = 0,
                  deleteRecordReverted = 0, notDeleted = []\<rparr>"

text \<open>
  Modelled from the spec: one step of \<^verbatim>\<open>rollbackPendingOperations\<close> of the absent hook,
  section 4.3. An \<open>Attach\<close> deletes the uploaded object, best effort, and unlinks it from
  the buffer. A \<open>Detach\<close> has nothing to delete and restores the link. A \<open>DeleteRecord\<close>
  is un-marked, which the clearing of the log does.
\<close>

fun rollback_entry ::
  "(url \<Rightarrow> 'st \<Rightarrow> bool \<times> 'st) \<Rightarrow> PendingOperation \<Rightarrow> 'st session \<times> RollbackSummary
     \<Rightarrow> 'st session \<times> RollbackSummary" where
  "rollback_entry del (Attach i u) (s, sm) =
     (case del u (remote s) of (ok, st') \<Rightarrow>
        let s' = s\<lparr>remote := st', trace := trace s @ [RemoteDelete u ok],
                   patient := unlink i u (patient s)\<rparr> in
        if ok then (s', sm\<lparr>attachReverted := attachReverted sm + 1\<rparr>)
        else (s', sm\<lparr>attachFailed := attachFailed sm + 1, notDeleted := notDeleted sm @ [u]\<rparr>))"
| "rollback_entry del (Detach i u) (s, sm) =
     (s\<lparr>patient := onAddDocument i u (patient s)\<rparr>,
      sm\<lparr>detachReverted := detachReverted sm + 1\<rparr>)"
| "rollback_entry del (DeleteRecord i us) (s, sm) =
     (s, sm\<lparr>deleteRecordReverted := deleteRecordReverted sm + 1\<rparr>)"

fun rollback_entries ::
  "(url \<Rightarrow> 'st \<Rightarrow> bool \<times> 'st) \<Rightarrow> PendingOperation list \<Rightarrow> 'st session \<times> RollbackSummary
     \<Rightarrow> 'st session \<times> RollbackSummary" where
  "rollback_entries del [] x = x"
| "rollback_entries del (e # es) x = rollback_entries del es (rollback_entry del e x)"

text \<open>
  Modelled from the spec: \<^verbatim>\<open>rollbackPendingOperations\<close> of the absent hook: the log is
  processed in reverse order and cleared; remote failures never throw. Putting the buffer
  back to the snapshot is the page's part (\<open>confirmDiscard\<close> below).
\<close>

definition rollbackPendingOperations ::
  "(url \<Rightarrow> 'st \<Rightarrow> bool \<times> 'st) \<Rightarrow> 'st session \<Rightarrow> 'st session \<times> RollbackSummary" where
  "rollbackPendingOperations del s =
     (case rollback_entries del (rev (pendingOperations s)) (s, noRollbacks) of
        (s', sm) \<Rightarrow> (s'\<lparr>pendingOperations := []\<rparr>, sm))"

subsection \<open>Handlers of the edit page\<close>

text \<open>The record and the reference a handler reads from the buffer before it acts.\<close>

definition recordAt :: "IPatient \<Rightarrow> int \<Rightarrow> IHistoryRecord option" where
  "recordAt p i = (case history p of None \<Rightarrow> None | Some h \<Rightarrow> js_nth h i)"

definition urlAt :: "IPatient \<Rightarrow> int \<Rightarrow> int \<Rightarrow> url option" where
  "urlAt p i d =
     (case recordAt p i of
        None \<Rightarrow> None
      | Some r \<Rightarrow> (case document_urls r of None \<Rightarrow> None | Some ds \<Rightarrow> js_nth ds d))"

text \<open>
  \<^verbatim>\<open>handleAddDocument\<close> passes \<^verbatim>\<open>false\<close> as a third argument to the hook; the spec gives
  \<^verbatim>\<open>recordAttach\<close> no such argument and the model has none.
\<close>

definition handleAddDocument :: "int \<Rightarrow> url \<Rightarrow> 'st session \<Rightarrow> 'st session" where
  "handleAddDocument recordIndex u s = addDocumentWithRollback recordIndex u s"

definition handleRemoveDocument :: "int \<Rightarrow> int \<Rightarrow> 'st session \<Rightarrow> 'st session" where
  "handleRemoveDocument recordIndex documentIndex s =
     (case urlAt (patient s) recordIndex documentIndex of
        None \<Rightarrow> s
      | Some u \<Rightarrow>
          if u \<noteq> [] then removeDocumentWithDeferred recordIndex documentIndex u s else s)"

definition handleRemoveRecord :: "int \<Rightarrow> 'st session \<Rightarrow> 'st session" where
  "handleRemoveRecord index s =
     (case recordAt (patient s) index of
        None \<Rightarrow> s
      | Some recordToRemove \<Rightarrow>
          (let documentUrls = (case document_urls recordToRemove of None \<Rightarrow> [] | Some ds \<Rightarrow> ds)
           in markRecordForDeletion index documentUrls s))"

definition handleDiscard :: "'st session \<Rightarrow> 'st session" where
  "handleDiscard s =
     (if hasUnsavedChanges s then s\<lparr>showDiscardConfirmation := True\<rparr>
      else s\<lparr>location := ''/dashboard''\<rparr>)"

text \<open>
  \<^verbatim>\<open>confirmDiscard\<close>. Its \<^verbatim>\<open>catch\<close> branch is never taken, the rollback of the hook
  returning normally whatever the remote calls did.
\<close>

definition confirmDiscard :: "(url \<Rightarrow> 'st \<Rightarrow> bool \<times> 'st) \<Rightarrow> 'st session \<Rightarrow> 'st session" where
  "confirmDiscard del s =
     (case rollbackPendingOperations del (s\<lparr>isRollbackInProgress := True\<rparr>) of
        (s1, sm) \<Rightarrow>
          (let s2 = (case originalPatient s of
                       None \<Rightarrow> s1
                     | Some orig \<Rightarrow> s1\<lparr>patient := deepCopy orig, hasUnsavedChanges := False\<rparr>)
           in s2\<lparr>showDiscardConfirmation := False, location := ''/dashboard'',
                 isRollbackInProgress := False\<rparr>))"

text \<open>
  The patient data a save hands to the persistence call: the buffer without the records
  that are marked for deletion (\<^verbatim>\<open>filteredHistory\<close> and \<^verbatim>\<open>patientToSave\<close> in
  \<^verbatim>\<open>handleSave\<close>).
\<close>

definition patientToSave :: "'st session \<Rightarrow> IPatient" where
  "patientToSave s =
     (let filteredHistory =
            map_option (filter_index (\<lambda>index. \<not> isRecordMarkedForDeletion s index))
              (history (patient s))
      in (patient s)\<lparr>history := filteredHistory\<rparr>)"

text \<open>The two checks of \<^verbatim>\<open>handleSave\<close> before it saves.\<close>

definition passes_validation :: "'st session \<Rightarrow> bool" where
  "passes_validation s =
     (truthy (ident (patient s)) \<and> truthy (clinicId s) \<and>
      truthy (name (patient s)) \<and> truthy (HN_code (patient s)))"

text \<open>
  \<^verbatim>\<open>handleSave\<close>. \<open>updatePatient\<close> tells whether the persistence call succeeds
  (\<^verbatim>\<open>unwrap()\<close> throws when it does not) and \<open>keepEditing\<close> is the user's answer to the
  dialog of the \<^verbatim>\<open>catch\<close> branch. The summary that the commit returns is not read.
\<close>

definition handleSave ::
  "(url \<Rightarrow> 'st \<Rightarrow> bool \<times> 'st) \<Rightarrow> (IPatient \<Rightarrow> bool) \<Rightarrow> bool \<Rightarrow> 'st session \<Rightarrow> 'st session" where
  "handleSave del updatePatient keepEditing s =
     (if \<not> truthy (ident (patient s)) \<or> \<not> truthy (clinicId s)
      then s\<lparr>alerts := alerts s @ [''Missing patient ID or clinic ID'']\<rparr>
      else if \<not> truthy (name (patient s)) \<or> \<not> truthy (HN_code (patient s))
      then s\<lparr>alerts := alerts s @ [''Name and Hospital Number (HN) are required fields'']\<rparr>
      else
        (let ok = updatePatient (patientToSave s);
             s1 = s\<lparr>isSaving := True,
                    trace := trace s @ [SavePatient (patientToSave s) ok],
                    persisted := (if ok then Some (patientToSave s) else persisted s)\<rparr>
         in if ok then
              (case commitPendingOperations del s1 of
                 (s2, sm) \<Rightarrow>
                   s2\<lparr>originalPatient := Some (deepCopy (patientToSave s)),
                      hasUnsavedChanges := False, location := ''/dashboard'',
                      isSaving := False\<rparr>)
            else if keepEditing then s1\<lparr>isSaving := False\<rparr>
            else (handleDiscard s1)\<lparr>isSaving := False\<rparr>))"

subsection \<open>Effects of the edit page\<close>

datatype loading = Idle | Pending | Succeeded | Failed

definition loadEffect :: "IPatient option \<Rightarrow> loading \<Rightarrow> 'st session \<Rightarrow> 'st session" where
  "loadEffect patientFromStore patientLoading s =
     (case patientFromStore of
        None \<Rightarrow> s
      | Some p \<Rightarrow>
          if patientLoading \<noteq> Succeeded then s
          else
            (let processedHistory =
                   (case history p of
                      None \<Rightarrow> []
                    | Some h \<Rightarrow>
                        map (\<lambda>r. r\<lparr>timestamp := (case timestamp r of
                                                    IsoString t \<Rightarrow> DateObj t
                                                  | DateObj t \<Rightarrow> DateObj t)\<rparr>) h);
                 sortedHistory = sortNewestFirst processedHistory;
                 patientData = p\<lparr>history := Some sortedHistory\<rparr>
             in s\<lparr>patient := patientData, originalPatient := Some (deepCopy patientData),
                  hasUnsavedChanges := False\<rparr>))"


text \<open>A snapshot is a deep copy: copying it again gives the same object.\<close>

definition snapshot_is_copy :: "'st session \<Rightarrow> bool" where
  "snapshot_is_copy s =
     (case originalPatient s of None \<Rightarrow> True | Some orig \<Rightarrow> deepCopy orig = orig)"

subsection \<open>Edit sessions\<close>

datatype action =
    AddDocument int url
  | RemoveDocument int int
  | RemoveRecord int

fun perform :: "action \<Rightarrow> 'st session \<Rightarrow> 'st session" where
  "perform (AddDocument i u) s = handleAddDocument i u s"
| "perform (RemoveDocument i d) s = handleRemoveDocument i d s"
| "perform (RemoveRecord i) s = handleRemoveRecord i s"

definition run :: "action list \<Rightarrow> 'st session \<Rightarrow> 'st session" where
  "run acts s = fold perform acts s"

text \<open>The calls a step has issued: what it added to the trace.\<close>

definition issued :: "'st session \<Rightarrow> 'st session \<Rightarrow> event list" where
  "issued s s' = drop (length (trace s)) (trace s')"

fun is_RemoteDelete :: "event \<Rightarrow> bool" where
  "is_RemoteDelete (RemoteDelete u ok) = True"
| "is_RemoteDelete (SavePatient p ok) = False"

fun failed_delete :: "event \<Rightarrow> url list" where
  "failed_delete (RemoteDelete u ok) = (if ok then [] else [u])"
| "failed_delete (SavePatient p ok) = []"

definition failed_deletes :: "event list \<Rightarrow> url list" where
  "failed_deletes tr = concat (map failed_delete tr)"

text \<open>
  Two orders of a save. In the first every remote delete comes before the persistence
  call: past the leading deletes no delete is left. In the second the persistence call
  comes first, and the deletes follow it only when it has succeeded.
\<close>

definition applied_before_persisted :: "event list \<Rightarrow> bool" where
  "applied_before_persisted tr = (\<not> list_ex is_RemoteDelete (dropWhile is_RemoteDelete tr))"

fun persisted_before_applied :: "event list \<Rightarrow> bool" where
  "persisted_before_applied [] = True"
| "persisted_before_applied (SavePatient p ok # ds) = (list_all is_RemoteDelete ds \<and> (ok \<or> ds = []))"
| "persisted_before_applied (RemoteDelete u ok # ds) = False"

fun is_Attach :: "PendingOperation \<Rightarrow> bool" where
  "is_Attach (Attach i u) = True"
| "is_Attach (Detach i u) = False"
| "is_Attach (DeleteRecord i us) = False"

text \<open>The object a remote delete aims at, and the object an \<open>Attach\<close> entry has uploaded.\<close>

fun deleted_url :: "event \<Rightarrow> url list" where
  "deleted_url (RemoteDelete u ok) = [u]"
| "deleted_url (SavePatient p ok) = []"

fun attached_url :: "PendingOperation \<Rightarrow> url list" where
  "attached_url (Attach i u) = [u]"
| "attached_url (Detach i u) = []"
| "attached_url (DeleteRecord i us) = []"

text \<open>The objects the commit of an entry deletes (section 4.3 of the spec).\<close>

fun to_delete :: "PendingOperation \<Rightarrow> url list" where
  "to_delete (Attach i u) = []"
| "to_delete (Detach i u) = [u]"
| "to_delete (DeleteRecord i us) = us"




fun deferred :: "action \<Rightarrow> bool" where
  "deferred (AddDocument i u) = False"
| "deferred (RemoveDocument i d) = True"
| "deferred (RemoveRecord i) = True"

section \<open>Cascading patient deletion\<close>

text \<open>
  The dashboard (\<^verbatim>\<open>confirmDeletePatient\<close>) and the dialog (\<^verbatim>\<open>PatientDeleteDialog\<close>) hand
  the \<^verbatim>\<open>forceDelete\<close> flag of the checkbox to the \<^verbatim>\<open>deletePatient\<close> action unchanged. The
  action and the route behind it are not among the sources.
\<close>

text \<open>The dialog's count of attached documents, a \<^verbatim>\<open>reduce\<close> over the history.\<close>

definition totalDocuments :: "IPatient \<Rightarrow> nat" where
  "totalDocuments p =
     (case history p of
        None \<Rightarrow> 0
      | Some h \<Rightarrow>
          fold (\<lambda>r total. total + (case document_urls r of None \<Rightarrow> 0 | Some ds \<Rightarrow> length ds)) h 0)"

text \<open>
  The outcome of a deletion, with the members of the dialog's \<^verbatim>\<open>deleteResult\<close> state and of
  section 3 of the spec.
\<close>

record DeletionOutcome =
  filesDeleted :: nat
  filesNotDeleted :: nat
  success :: bool

text \<open>
  Modelled from the spec: the enumeration of section 4.4, every attachment reference of
  every history record of the patient, in order.
\<close>

definition attachments :: "IPatient \<Rightarrow> url list" where
  "attachments p =
     (case history p of
        None \<Rightarrow> []
      | Some h \<Rightarrow> concat (map (\<lambda>r. case document_urls r of None \<Rightarrow> [] | Some ds \<Rightarrow> ds) h))"

text \<open>
  Modelled from the spec: the Cascading Deletion Coordinator of section 4.4, absent from
  the sources. The database maps a clinic and a patient identifier to the patient's record.
  Every attachment gets a remote delete, successes and failures are counted, and the
  database record is deleted unless \<open>forceDelete\<close> is false and a delete has failed.
\<close>

definition cascadeDelete ::
  "(url \<Rightarrow> 'st \<Rightarrow> bool \<times> 'st) \<Rightarrow> string \<Rightarrow> string \<Rightarrow> bool
     \<Rightarrow> (string \<times> string \<Rightarrow> IPatient option) \<times> 'st
     \<Rightarrow> DeletionOutcome \<times> (string \<times> string \<Rightarrow> IPatient option) \<times> 'st" where
  "cascadeDelete del patientId cid forceDelete w =
     (case w of (db, st) \<Rightarrow>
        (let refs = (case db (cid, patientId) of None \<Rightarrow> [] | Some p \<Rightarrow> attachments p)
         in case deleteAll del refs st of (rs, st') \<Rightarrow>
              (let successCount = succeeded rs;
                   failureCount = length (failures rs)
               in if \<not> forceDelete \<and> failureCount > 0
                  then (\<lparr>filesDeleted = successCount, filesNotDeleted = failureCount,
                         success = False\<rparr>, db, st')
                  else (\<lparr>filesDeleted = successCount, filesNotDeleted = failureCount,
                         success = True\<rparr>, db((cid, patientId) := None), st'))))"

section \<open>A session to run\<close>

text \<open>
  The scenario of section 8 of the spec: a patient with two history records that carry the
  attachments \<open>[a, b]\<close> and \<open>[c]\<close>; the user detaches \<open>b\<close> and marks the second record for
  deletion. Storage is the list of the objects it holds, and the objects named
  \<open>unreachable\<close> cannot be deleted.
\<close>

definition storage_delete :: "url list \<Rightarrow> url \<Rightarrow> url list \<Rightarrow> bool \<times> url list" where
  "storage_delete unreachable u st =
     (if u \<in> set unreachable then (False, st) else (True, removeAll u st))"

definition recordAB :: IHistoryRecord where
  "recordAB = \<lparr>timestamp = IsoString 2000, document_urls = Some [''a'', ''b''],
               other_fields = [(''notes'', ''x-ray'')],
               member_order = [''timestamp'', ''notes'', ''document_urls'']\<rparr>"

definition recordC :: IHistoryRecord where
  "recordC = \<lparr>timestamp = IsoString 1000, document_urls = Some [''c''], other_fields = [],
              member_order = [''timestamp'', ''document_urls'']\<rparr>"

definition storedPatient :: IPatient where
  "storedPatient = \<lparr>ident = Some ''p1'', name = Some ''Ann'', HN_code = Some ''HN1'',
                    ID_code = None, lastVisit = None, history = Some [recordAB, recordC]\<rparr>"

definition loadedSession :: "url list session" where
  "loadedSession =
     loadEffect (Some storedPatient) Succeeded (initialState (Some ''c1'') [''a'', ''b'', ''c''])"

definition lateEdit :: IHistoryRecord where
  "lateEdit = \<lparr>timestamp = DateObj 5, document_urls = Some [''a'', ''b''],
               other_fields = [(''notes'', ''x-ray'')],
               member_order = [''timestamp'', ''notes'', ''document_urls'']\<rparr>"




text \<open>
  The second record is marked for deletion and a newer record is added before the save:
  the re-sort moves the records, the mark stays at its index.
\<close>

definition newerRecord :: IHistoryRecord where
  "newerRecord = \<lparr>timestamp = DateObj 3000, document_urls = Some [''n''], other_fields = [],
                  member_order = [''timestamp'', ''document_urls'']\<rparr>"

definition resortedSession :: "url list session" where
  "resortedSession =
     (handleRemoveRecord 1 loadedSession)
       \<lparr>patient := handleAddRecord newerRecord (patient (handleRemoveRecord 1 loadedSession))\<rparr>"

definition editedSession :: "url list session" where
  "editedSession = run [RemoveDocument 0 1, RemoveRecord 1] loadedSession"

section \<open>Theorems\<close>

text \<open>
  C10. An add-document or remove-document callback whose record index is out of the bounds
  of the history sequence, or (for removal) whose document index is out of the bounds of
  that record's \<^verbatim>\<open>document_urls\<close>, returns the previous buffer state unchanged.
\<close>

theorem callbacks_ignore_invalid_indices:
  "(\<not> record_in_bounds prev recordIndex \<longrightarrow> onAddDocument recordIndex u prev = prev) \<and>
   (\<not> record_in_bounds prev recordIndex \<or> \<not> document_in_bounds prev recordIndex documentIndex
      \<longrightarrow> onRemoveDocument recordIndex documentIndex prev = prev)"
  by (auto simp: record_in_bounds_def document_in_bounds_def onAddDocument_def
      onRemoveDocument_def getActualRecordIndex_def Let_def split: option.splits)

theorem callbacks_ignore_invalid_indices_witness:
  "\<not> record_in_bounds storedPatient 5 \<and> onAddDocument 5 ''z'' storedPatient = storedPatient \<and>
   \<not> document_in_bounds storedPatient 0 7 \<and> onRemoveDocument 0 7 storedPatient = storedPatient"
proof -
  have a: "\<not> record_in_bounds storedPatient 5" by code_simp
  have b: "\<not> document_in_bounds storedPatient 0 7" by code_simp
  from a callbacks_ignore_invalid_indices [of storedPatient 5 "''z''" 7]
  have c: "onAddDocument 5 ''z'' storedPatient = storedPatient" by blast
  from b callbacks_ignore_invalid_indices [of storedPatient 0 "''z''" 7]
  have d: "onRemoveDocument 0 7 storedPatient = storedPatient" by blast
  from a b c d show ?thesis by blast
qed

subsection \<open>Deep copies and serialisation\<close>

lemma first_occurrences_set: "set (first_occurrences seen xs) = set xs - set seen"
  by (induction xs arbitrary: seen) auto

lemma first_occurrences_distinct: "distinct (first_occurrences seen xs)"
  by (induction xs arbitrary: seen) (auto simp: first_occurrences_set)

lemma first_occurrences_cong:
  "set seen = set seen' \<Longrightarrow> first_occurrences seen xs = first_occurrences seen' xs"
proof (induction xs arbitrary: seen seen')
  case Nil
  show ?case by simp
next
  case (Cons x xs)
  have "first_occurrences (x # seen) xs = first_occurrences (x # seen') xs"
    by (rule Cons.IH) (simp add: Cons.prems)
  moreover have "first_occurrences seen xs = first_occurrences seen' xs"
    by (rule Cons.IH) (rule Cons.prems)
  ultimately show ?case using Cons.prems by simp
qed

lemma first_occurrences_append:
  "first_occurrences seen (xs @ ys)
     = first_occurrences seen xs @ first_occurrences (xs @ seen) ys"
proof (induction xs arbitrary: seen)
  case Nil
  show ?case by simp
next
  case (Cons x xs)
  have a: "first_occurrences (xs @ x # seen) ys = first_occurrences (x # xs @ seen) ys"
    by (rule first_occurrences_cong) auto
  have b: "x \<in> set seen \<Longrightarrow> first_occurrences (xs @ seen) ys = first_occurrences (x # xs @ seen) ys"
    by (rule first_occurrences_cong) auto
  show ?case using a b by (simp add: Cons.IH)
qed

lemma first_occurrences_id:
  "distinct xs \<Longrightarrow> set xs \<inter> set seen = {} \<Longrightarrow> first_occurrences seen xs = xs"
  by (induction xs arbitrary: seen) auto

lemma first_occurrences_seen:
  "set xs \<subseteq> set seen \<Longrightarrow> first_occurrences seen xs = []"
  by (induction xs arbitrary: seen) auto

lemma members_of_append: "members_of g (ks @ ks') = members_of g ks @ members_of g ks'"
  by (simp add: members_of_def)

lemma members_of_keys: "map fst (members_of g ks) = filter (\<lambda>k. g k \<noteq> None) ks"
  by (induction ks) (auto simp: members_of_def)

lemma members_of_present: "members_of g (filter (\<lambda>k. g k \<noteq> None) ks) = members_of g ks"
  by (induction ks) (auto simp: members_of_def)

lemma members_of_cong: "(\<And>k. k \<in> set ks \<Longrightarrow> g k = g' k) \<Longrightarrow> members_of g ks = members_of g' ks"
  by (induction ks) (auto simp: members_of_def)

lemma map_of_members_of:
  "map_of (members_of g ks) k = (if k \<in> set ks then g k else None)"
proof (induction ks)
  case Nil
  show ?case by (simp add: members_of_def)
next
  case (Cons k' ks)
  have "members_of g (k' # ks) = member k' (g k') @ members_of g ks"
    by (simp add: members_of_def)
  then show ?case
    using Cons by (cases "g k'") auto
qed


lemma key_order_set:
  "set (key_order r)
     = set (member_order r) \<union> {''timestamp'', ''document_urls''} \<union> fst ` set (other_fields r)"
  by (auto simp: key_order_def first_occurrences_set)

lemma member_value_unlisted: "k \<notin> set (key_order r) \<Longrightarrow> member_value r k = None"
  by (auto simp: key_order_set member_value_def map_of_eq_None_iff)

lemma map_of_members: "map_of (members_of (member_value r) (key_order r)) k = member_value r k"
  by (simp add: map_of_members_of member_value_unlisted)

lemma string_members_of:
  "concat (map string_member (members_of (member_value r) ks)) = listed_fields r ks"
proof (induction ks)
  case Nil
  show ?case by (simp add: members_of_def listed_fields_def)
next
  case (Cons k ks)
  have "concat (map string_member (member k (member_value r k)))
        = (if reserved k then []
           else (case map_of (other_fields r) k of None \<Rightarrow> [] | Some v \<Rightarrow> [(k, v)]))"
    by (cases "document_urls r"; cases "map_of (other_fields r) k")
       (auto simp: member_value_def reserved_def)
  with Cons show ?case
    by (simp add: members_of_def listed_fields_def)
qed

lemma map_of_listed_fields:
  "map_of (listed_fields r ks) k
     = (if k \<in> set ks \<and> \<not> reserved k then map_of (other_fields r) k else None)"
proof (induction ks)
  case Nil
  show ?case by (simp add: listed_fields_def)
next
  case (Cons k' ks)
  have "listed_fields r (k' # ks)
        = (if reserved k' then []
           else (case map_of (other_fields r) k' of None \<Rightarrow> [] | Some v \<Rightarrow> [(k', v)]))
          @ listed_fields r ks"
    by (simp add: listed_fields_def)
  then show ?case
    using Cons by (cases "map_of (other_fields r) k'") auto
qed

lemma listed_fields_member:
  "(k, v) \<in> set (listed_fields r ks)
     \<Longrightarrow> k \<in> set ks \<and> \<not> reserved k \<and> map_of (other_fields r) k = Some v"
  by (induction ks) (auto simp: listed_fields_def split: if_splits option.splits)

lemma listed_fields_keys:
  "set (map fst (listed_fields r ks)) \<subseteq> set (filter (\<lambda>k. member_value r k \<noteq> None) ks)"
proof
  fix k
  assume "k \<in> set (map fst (listed_fields r ks))"
  then obtain v where "(k, v) \<in> set (listed_fields r ks)" by auto
  then have m: "k \<in> set ks" "\<not> reserved k" "map_of (other_fields r) k = Some v"
    using listed_fields_member by blast+
  from m(2,3) have "member_value r k \<noteq> None"
    by (simp add: member_value_def reserved_def)
  with m(1) show "k \<in> set (filter (\<lambda>k. member_value r k \<noteq> None) ks)" by simp
qed

lemma json_strings_of: "concat (map (json_string \<circ> JStr) ds) = ds"
  by (induction ds) auto

lemma deepCopy_record_fields:
  "timestamp (deepCopy_record r) = IsoString (getTime (timestamp r))"
  "document_urls (deepCopy_record r) = document_urls r"
  "other_fields (deepCopy_record r) = listed_fields r (key_order r)"
  "member_order (deepCopy_record r) = filter (\<lambda>k. member_value r k \<noteq> None) (key_order r)"
proof -
  show "timestamp (deepCopy_record r) = IsoString (getTime (timestamp r))"
    by (simp add: deepCopy_record_def stringify_record_def map_of_members member_value_def)
  show "document_urls (deepCopy_record r) = document_urls r"
    by (cases "document_urls r")
       (simp_all add: deepCopy_record_def stringify_record_def map_of_members member_value_def
          json_strings_of)
  show "other_fields (deepCopy_record r) = listed_fields r (key_order r)"
    by (simp add: deepCopy_record_def stringify_record_def string_members_of)
  show "member_order (deepCopy_record r) = filter (\<lambda>k. member_value r k \<noteq> None) (key_order r)"
    by (simp add: deepCopy_record_def stringify_record_def members_of_keys)
qed

lemma member_value_deepCopy: "member_value (deepCopy_record r) k = member_value r k"
proof -
  have "map_of (listed_fields r (key_order r)) k = map_of (other_fields r) k" if "\<not> reserved k"
  proof (cases "k \<in> set (key_order r)")
    case True
    with that show ?thesis by (simp add: map_of_listed_fields)
  next
    case False
    then have "map_of (other_fields r) k = None"
      by (auto simp: key_order_set map_of_eq_None_iff)
    with False show ?thesis by (simp add: map_of_listed_fields)
  qed
  then show ?thesis
    by (auto simp: member_value_def deepCopy_record_fields reserved_def)
qed

lemma key_order_deepCopy:
  "key_order (deepCopy_record r)
     = filter (\<lambda>k. member_value r k \<noteq> None) (key_order r)
       @ (if member_value r ''document_urls'' = None then [''document_urls''] else [])"
proof -
  let ?pk = "filter (\<lambda>k. member_value r k \<noteq> None) (key_order r)"
  let ?os = "map fst (listed_fields r (key_order r))"
  have d: "distinct ?pk"
    by (simp add: key_order_def first_occurrences_distinct)
  have t: "''timestamp'' \<in> set ?pk"
    by (simp add: key_order_set member_value_def)
  have o: "set ?os \<subseteq> set ?pk"
    by (rule listed_fields_keys)
  have u: "''document_urls'' \<in> set ?pk \<longleftrightarrow> member_value r ''document_urls'' \<noteq> None"
    by (simp add: key_order_set)
  have "key_order (deepCopy_record r)
        = first_occurrences [] (?pk @ (''timestamp'' # ?os) @ [''document_urls''])"
    by (simp add: key_order_def deepCopy_record_fields)
  also have "\<dots> = ?pk @ first_occurrences ?pk ((''timestamp'' # ?os) @ [''document_urls''])"
    using d by (simp only: first_occurrences_append append_Nil2) (simp add: first_occurrences_id)
  also have "first_occurrences ?pk ((''timestamp'' # ?os) @ [''document_urls''])
        = first_occurrences ((''timestamp'' # ?os) @ ?pk) [''document_urls'']"
    using t o by (simp only: first_occurrences_append) (simp add: first_occurrences_seen)
  also have "\<dots> = first_occurrences ?pk [''document_urls'']"
    using t o by (intro first_occurrences_cong) auto
  also have "\<dots> = (if member_value r ''document_urls'' = None then [''document_urls''] else [])"
    using u by simp
  finally show ?thesis .
qed

lemma stringify_deepCopy_record: "stringify_record (deepCopy_record r) = stringify_record r"
proof -
  let ?g = "member_value r"
  let ?pk = "filter (\<lambda>k. ?g k \<noteq> None) (key_order r)"
  have "members_of (member_value (deepCopy_record r)) (key_order (deepCopy_record r))
        = members_of ?g (key_order (deepCopy_record r))"
    by (rule members_of_cong) (rule member_value_deepCopy)
  also have "\<dots> = members_of ?g ?pk"
    by (simp add: key_order_deepCopy members_of_append) (simp add: members_of_def)
  also have "\<dots> = members_of ?g (key_order r)"
    by (rule members_of_present)
  finally show ?thesis by (simp add: stringify_record_def)
qed

lemma deepCopy_record_idem: "deepCopy_record (deepCopy_record r) = deepCopy_record r"
  using stringify_deepCopy_record [of r] by (simp add: deepCopy_record_def)

lemma map_of_member_append:
  "map_of (member k a @ xs) k' = (if k' = k \<and> a \<noteq> None then a else map_of xs k')"
  by (cases a) auto

lemma map_of_member: "map_of (member k a) k' = (if k' = k then a else None)"
  by (cases a) auto

lemma json_text_of: "json_text (map_option JStr x) = x"
  by (cases x) auto

lemma json_date_of:
  "json_date (map_option (\<lambda>d. JIso (getTime d)) x) = map_option (\<lambda>d. IsoString (getTime d)) x"
  by (cases x) auto

lemma json_records_of:
  "json_records (map_option (\<lambda>h. JArr (map stringify_record h)) x)
     = map_option (map deepCopy_record) x"
  by (cases x) (auto simp: deepCopy_record_def)

lemma if_present: "(if a \<noteq> None then a else None) = a"
  by simp

lemma map_of_stringify:
  "map_of (member ''_id'' a @ member ''name'' b @ member ''HN_code'' c @ member ''ID_code'' d
            @ member ''lastVisit'' e @ member ''history'' f) k
     = (if k = ''_id'' then a else if k = ''name'' then b else if k = ''HN_code'' then c
        else if k = ''ID_code'' then d else if k = ''lastVisit'' then e
        else if k = ''history'' then f else None)"
  by (simp add: map_of_member_append map_of_member del: map_of_append)

lemma deepCopy_fields:
  "deepCopy p = p\<lparr>lastVisit := map_option (\<lambda>d. IsoString (getTime d)) (lastVisit p),
                   history := map_option (map deepCopy_record) (history p)\<rparr>"
  by (cases p)
     (simp add: deepCopy_def stringify_def map_of_stringify json_text_of json_date_of
        json_records_of del: map_of_append)

lemma stringify_deepCopy: "stringify (deepCopy p) = stringify p"
proof -
  have "map_option (\<lambda>d. JIso (getTime d)) (map_option (\<lambda>d. IsoString (getTime d)) x)
        = map_option (\<lambda>d. JIso (getTime d)) x" for x
    by (cases x) auto
  moreover have "map_option (\<lambda>h. JArr (map stringify_record h)) (map_option (map deepCopy_record) x)
        = map_option (\<lambda>h. JArr (map stringify_record h)) x" for x
    by (cases x) (auto simp: stringify_deepCopy_record)
  ultimately show ?thesis
    by (simp add: deepCopy_fields stringify_def)
qed

lemma deepCopy_idem: "deepCopy (deepCopy p) = deepCopy p"
  using stringify_deepCopy [of p] by (simp add: deepCopy_def)


subsection \<open>Sessions and the snapshot\<close>

lemma run_append: "run (as @ bs) s = run bs (run as s)"
  by (simp add: run_def)

lemma perform_originalPatient: "originalPatient (perform a s) = originalPatient s"
  by (cases a)
     (simp_all add: handleAddDocument_def addDocumentWithRollback_def handleRemoveDocument_def
        removeDocumentWithDeferred_def handleRemoveRecord_def markRecordForDeletion_def
        split: option.splits)

lemma run_originalPatient: "originalPatient (run acts s) = originalPatient s"
  unfolding run_def by (induction acts arbitrary: s) (simp_all add: perform_originalPatient)

lemma rollback_entries_originalPatient:
  "originalPatient (fst (rollback_entries del es x)) = originalPatient (fst x)"
proof (induction es arbitrary: x)
  case Nil
  show ?case by simp
next
  case (Cons e es)
  have "originalPatient (fst (rollback_entry del e x)) = originalPatient (fst x)"
    by (cases x; cases e) (auto simp: Let_def split: prod.splits)
  with Cons [of "rollback_entry del e x"] show ?case by simp
qed

lemma commit_entries_originalPatient:
  "originalPatient (fst (commit_entries del es x)) = originalPatient (fst x)"
proof (induction es arbitrary: x)
  case Nil
  show ?case by simp
next
  case (Cons e es)
  have "originalPatient (fst (commit_entry del e x)) = originalPatient (fst x)"
    by (cases x; cases e) (auto simp: Let_def split: prod.splits)
  with Cons [of "commit_entry del e x"] show ?case by simp
qed

text \<open>
  Every snapshot the page takes, at load and after a save, is a deep copy, and no step of a
  session replaces it by anything else.
\<close>

lemma snapshot_is_copy_kept:
  "snapshot_is_copy (initialState cid st)"
  "snapshot_is_copy s \<Longrightarrow> snapshot_is_copy (loadEffect patientFromStore patientLoading s)"
  "snapshot_is_copy s \<Longrightarrow> snapshot_is_copy (run acts s)"
  "snapshot_is_copy s \<Longrightarrow> snapshot_is_copy (handleSave del updatePatient keepEditing s)"
  "snapshot_is_copy s \<Longrightarrow> snapshot_is_copy (confirmDiscard del s)"
proof -
  show "snapshot_is_copy (initialState cid st)"
    by (simp add: snapshot_is_copy_def initialState_def)
  show "snapshot_is_copy (loadEffect patientFromStore patientLoading s)" if "snapshot_is_copy s"
    using that
    by (simp add: snapshot_is_copy_def loadEffect_def Let_def deepCopy_idem split: option.splits)
  show "snapshot_is_copy (run acts s)" if "snapshot_is_copy s"
    using that by (simp add: snapshot_is_copy_def run_originalPatient)
  show "snapshot_is_copy (handleSave del updatePatient keepEditing s)" if "snapshot_is_copy s"
    using that
    by (simp add: snapshot_is_copy_def handleSave_def handleDiscard_def Let_def deepCopy_idem
        split: prod.splits)
  show "snapshot_is_copy (confirmDiscard del s)" if "snapshot_is_copy s"
  proof -
    let ?s = "s\<lparr>isRollbackInProgress := True\<rparr>"
    from rollback_entries_originalPatient [of del "rev (pendingOperations s)" "(?s, noRollbacks)"]
    show ?thesis
      using that
      by (cases "rollback_entries del (rev (pendingOperations s)) (?s, noRollbacks)")
         (auto simp: snapshot_is_copy_def confirmDiscard_def rollbackPendingOperations_def
            Let_def split: option.splits)
  qed
qed

text \<open>
  C2. Whatever attach, detach and record-deletion operations an edit session has recorded,
  discarding it leaves the edit buffer equal to the snapshot taken at the last load or
  save, whatever the remote deletes of the reversal sweep returned. A snapshot is a deep
  copy, so copying it again changes nothing.
\<close>

theorem discard_restores_snapshot:
  assumes "originalPatient s = Some snapshot" and "deepCopy snapshot = snapshot"
  shows "patient (confirmDiscard del (run acts s)) = snapshot"
  using assms
  by (simp add: confirmDiscard_def run_originalPatient Let_def split: prod.splits)

theorem discard_restores_snapshot_witness:
  "originalPatient loadedSession = Some storedPatient \<and> deepCopy storedPatient = storedPatient \<and>
   patient (confirmDiscard (storage_delete [''z''])
      (run [AddDocument 0 ''z'', RemoveDocument 0 1, RemoveRecord 1] loadedSession))
     = storedPatient"
proof -
  have a: "originalPatient loadedSession = Some storedPatient" by code_simp
  have b: "deepCopy storedPatient = storedPatient" by code_simp
  from discard_restores_snapshot [OF a b] a b show ?thesis by blast
qed



subsection \<open>Deferred operations and storage\<close>

lemma perform_trace: "trace (perform a s) = trace s \<and> remote (perform a s) = remote s"
  by (cases a)
     (simp_all add: handleAddDocument_def addDocumentWithRollback_def handleRemoveDocument_def
        removeDocumentWithDeferred_def handleRemoveRecord_def markRecordForDeletion_def
        split: option.splits)

lemma run_trace: "trace (run acts s) = trace s \<and> remote (run acts s) = remote s"
  unfolding run_def by (induction acts arbitrary: s) (simp_all add: perform_trace)

lemma record_operation_no_Attach:
  "\<not> is_Attach e \<Longrightarrow> \<not> list_ex is_Attach ops \<Longrightarrow> \<not> list_ex is_Attach (record_operation e ops)"
  by (auto simp: record_operation_def list_ex_iff)

lemma perform_no_Attach:
  "deferred a \<Longrightarrow> \<not> list_ex is_Attach (pendingOperations s)
     \<Longrightarrow> \<not> list_ex is_Attach (pendingOperations (perform a s))"
  by (cases a)
     (simp_all add: handleRemoveDocument_def removeDocumentWithDeferred_def
        handleRemoveRecord_def markRecordForDeletion_def record_operation_no_Attach
        split: option.splits)

lemma run_no_Attach:
  "list_all deferred acts \<Longrightarrow> \<not> list_ex is_Attach (pendingOperations s)
     \<Longrightarrow> \<not> list_ex is_Attach (pendingOperations (run acts s))"
  unfolding run_def by (induction acts arbitrary: s) (simp_all add: perform_no_Attach)

lemma rollback_entries_no_Attach:
  "\<not> list_ex is_Attach es \<Longrightarrow>
     trace (fst (rollback_entries del es (s, sm))) = trace s \<and>
     remote (fst (rollback_entries del es (s, sm))) = remote s"
proof (induction es arbitrary: s sm)
  case Nil
  then show ?case by simp
next
  case (Cons e es)
  then show ?case by (cases e) simp_all
qed

lemma confirmDiscard_no_Attach:
  assumes "\<not> list_ex is_Attach (pendingOperations s)"
  shows "trace (confirmDiscard del s) = trace s \<and> remote (confirmDiscard del s) = remote s"
proof -
  let ?s = "s\<lparr>isRollbackInProgress := True\<rparr>"
  have "\<not> list_ex is_Attach (rev (pendingOperations ?s))"
    using assms by (simp add: list_ex_iff)
  from rollback_entries_no_Attach [OF this, of del ?s noRollbacks]
  show ?thesis
    by (cases "rollback_entries del (rev (pendingOperations s)) (?s, noRollbacks)")
       (simp add: confirmDiscard_def rollbackPendingOperations_def Let_def
          split: option.splits)
qed

lemma rollback_entries_targets:
  "\<exists>ds. trace (fst (rollback_entries del es x)) = trace (fst x) @ ds
      \<and> concat (map deleted_url ds) = concat (map attached_url es)"
proof (induction es arbitrary: x)
  case Nil
  show ?case by simp
next
  case (Cons e es)
  have "\<exists>ds. trace (fst (rollback_entry del e x)) = trace (fst x) @ ds
          \<and> concat (map deleted_url ds) = attached_url e"
    by (cases x; cases e) (auto simp: Let_def split: prod.splits)
  then obtain ds where
    ds: "trace (fst (rollback_entry del e x)) = trace (fst x) @ ds"
      "concat (map deleted_url ds) = attached_url e"
    by blast
  from Cons [of "rollback_entry del e x"] obtain ds' where
    ds': "trace (fst (rollback_entries del es (rollback_entry del e x)))
            = trace (fst (rollback_entry del e x)) @ ds'"
      "concat (map deleted_url ds') = concat (map attached_url es)"
    by blast
  show ?case
    by (rule exI [of _ "ds @ ds'"]) (simp add: ds ds')
qed

lemma confirmDiscard_targets:
  "concat (map deleted_url (issued s (confirmDiscard del s)))
     = concat (map attached_url (rev (pendingOperations s)))"
proof -
  let ?s = "s\<lparr>isRollbackInProgress := True\<rparr>"
  from rollback_entries_targets [of del "rev (pendingOperations s)" "(?s, noRollbacks)"]
  obtain ds where
    ds: "trace (fst (rollback_entries del (rev (pendingOperations s)) (?s, noRollbacks)))
           = trace s @ ds"
      "concat (map deleted_url ds) = concat (map attached_url (rev (pendingOperations s)))"
    by auto
  then show ?thesis
    by (cases "rollback_entries del (rev (pendingOperations s)) (?s, noRollbacks)")
       (simp add: confirmDiscard_def rollbackPendingOperations_def issued_def Let_def
          split: option.splits)
qed

text \<open>
  C6. Detaching a document or marking a record for deletion issues no remote delete: the
  operations of a session leave the trace and the storage as they were. Discarding a
  session deletes the objects of its pending \<open>Attach\<close> entries and nothing else, so the
  objects that \<open>Detach\<close> and \<open>DeleteRecord\<close> entries refer to are not deleted: after a
  session of detaching and marking only, the discard issues no remote call at all.
\<close>

theorem deferred_operations_issue_no_remote_delete:
  "trace (run acts s) = trace s \<and> remote (run acts s) = remote s \<and>
   concat (map deleted_url (issued s (confirmDiscard del s)))
     = concat (map attached_url (rev (pendingOperations s))) \<and>
   (list_all deferred acts \<and> \<not> list_ex is_Attach (pendingOperations s) \<longrightarrow>
      trace (confirmDiscard del (run acts s)) = trace s \<and>
      remote (confirmDiscard del (run acts s)) = remote s)"
  using confirmDiscard_no_Attach [OF run_no_Attach, of acts s del]
  by (simp add: run_trace confirmDiscard_targets)

theorem deferred_operations_issue_no_remote_delete_witness:
  "list_all deferred [RemoveDocument 0 1, RemoveRecord 1] \<and>
   \<not> list_ex is_Attach (pendingOperations loadedSession) \<and>
   trace (confirmDiscard (storage_delete []) editedSession) = trace loadedSession \<and>
   remote (confirmDiscard (storage_delete []) editedSession) = remote loadedSession"
proof -
  have a: "list_all deferred [RemoveDocument 0 1, RemoveRecord 1]" by simp
  have b: "\<not> list_ex is_Attach (pendingOperations loadedSession)" by code_simp
  from deferred_operations_issue_no_remote_delete
    [of "[RemoveDocument 0 1, RemoveRecord 1]" loadedSession "storage_delete []"] a b
  show ?thesis unfolding editedSession_def by blast
qed

subsection \<open>The log invariant\<close>

lemma at_most_one_iff:
  "at_most_one_entry_per_pair ops \<longleftrightarrow> (\<forall>p. length (filter (references p) ops) \<le> 1)"
proof
  assume a: "at_most_one_entry_per_pair ops"
  show "\<forall>p. length (filter (references p) ops) \<le> 1"
  proof
    fix p
    show "length (filter (references p) ops) \<le> 1"
    proof (cases "\<exists>e \<in> set ops. references p e")
      case True
      then have "p \<in> set (concat (map pairs_of ops))"
        by (auto simp: references_def)
      with a show ?thesis
        unfolding at_most_one_entry_per_pair_def list_all_iff by blast
    next
      case False
      then have "filter (references p) ops = []"
        by (simp add: filter_empty_conv)
      then show ?thesis by simp
    qed
  qed
next
  assume "\<forall>p. length (filter (references p) ops) \<le> 1"
  then show "at_most_one_entry_per_pair ops"
    unfolding at_most_one_entry_per_pair_def list_all_iff by blast
qed

lemma same_target_iff: "same_target x e \<longleftrightarrow> (\<exists>p. references p x \<and> references p e)"
  by (auto simp: same_target_def list_ex_iff references_def)

lemma record_operation_replaces:
  assumes "references p e"
  shows "filter (references p) (record_operation e ops) = [e]"
proof -
  have "\<not> references p x" if "x \<in> set (filter (\<lambda>x. \<not> same_target x e) ops)" for x
  proof -
    from that have "\<not> same_target x e" by simp
    with assms show ?thesis unfolding same_target_iff by blast
  qed
  then have "filter (references p) (filter (\<lambda>x. \<not> same_target x e) ops) = []"
    unfolding filter_empty_conv by blast
  with assms show ?thesis by (simp add: record_operation_def)
qed

lemma record_operation_keeps_at_most_one:
  assumes "at_most_one_entry_per_pair ops"
  shows "at_most_one_entry_per_pair (record_operation e ops)"
  unfolding at_most_one_iff
proof
  fix p
  show "length (filter (references p) (record_operation e ops)) \<le> 1"
  proof (cases "references p e")
    case True
    then show ?thesis by (simp add: record_operation_replaces)
  next
    case False
    have "length (filter (references p) (filter (\<lambda>x. \<not> same_target x e) ops))
          \<le> length (filter (references p) ops)"
      by (induction ops) auto
    also have "\<dots> \<le> 1"
      using assms unfolding at_most_one_iff by blast
    finally show ?thesis
      using False by (simp add: record_operation_def)
  qed
qed

lemma perform_keeps_at_most_one:
  "at_most_one_entry_per_pair (pendingOperations s)
     \<Longrightarrow> at_most_one_entry_per_pair (pendingOperations (perform a s))"
  by (cases a)
     (simp_all add: handleAddDocument_def addDocumentWithRollback_def handleRemoveDocument_def
        removeDocumentWithDeferred_def handleRemoveRecord_def markRecordForDeletion_def
        record_operation_keeps_at_most_one split: option.splits)

lemma run_keeps_at_most_one:
  "at_most_one_entry_per_pair (pendingOperations s)
     \<Longrightarrow> at_most_one_entry_per_pair (pendingOperations (run acts s))"
  unfolding run_def by (induction acts arbitrary: s) (simp_all add: perform_keeps_at_most_one)

text \<open>
  C8. At every point of an edit session the log holds at most one entry for a
  (recordIndex, attachmentRef) pair: recording keeps that property, and after an operation
  on a pair is recorded, the entry just recorded is the only one for the pair.
\<close>

theorem log_has_one_entry_per_pair:
  "at_most_one_entry_per_pair (pendingOperations (initialState cid st)) \<and>
   (at_most_one_entry_per_pair (pendingOperations s)
      \<longrightarrow> at_most_one_entry_per_pair (pendingOperations (run acts s))) \<and>
   (references p e \<longrightarrow> filter (references p) (record_operation e ops) = [e])"
proof -
  have "at_most_one_entry_per_pair (pendingOperations (initialState cid st))"
    by (simp add: initialState_def at_most_one_entry_per_pair_def)
  then show ?thesis
    by (simp add: run_keeps_at_most_one record_operation_replaces)
qed

theorem log_has_one_entry_per_pair_witness:
  "at_most_one_entry_per_pair (pendingOperations loadedSession) \<and>
   at_most_one_entry_per_pair
     (pendingOperations (run [AddDocument 0 ''z'', RemoveDocument 0 2] loadedSession)) \<and>
   references (0, ''z'') (Detach 0 ''z'') \<and>
   filter (references (0, ''z'')) (record_operation (Detach 0 ''z'') [Attach 0 ''z'', Detach 1 ''c''])
     = [Detach 0 ''z'']"
proof -
  have a: "at_most_one_entry_per_pair (pendingOperations loadedSession)" by code_simp
  have b: "references (0, ''z'') (Detach 0 ''z'')" by code_simp
  from log_has_one_entry_per_pair
    [where s = loadedSession and acts = "[AddDocument 0 ''z'', RemoveDocument 0 2]"
      and cid = None and st = "[] :: url list" and p = "(0, ''z'')" and e = "Detach 0 ''z''" and ops = "[Attach 0 ''z'', Detach 1 ''c'']"]
    a b
  show ?thesis by blast
qed

text \<open>
  C9. Marking a history record for deferred deletion leaves the whole edit buffer, and so
  the history sequence with its length, order and contents, unchanged; the record is
  flagged, which it is exactly when it exists or was flagged before.
\<close>

theorem marking_keeps_history:
  "patient (handleRemoveRecord index s) = patient s \<and>
   isRecordMarkedForDeletion (handleRemoveRecord index s) index
     = (recordAt (patient s) index \<noteq> None \<or> isRecordMarkedForDeletion s index)"
  by (auto simp: handleRemoveRecord_def markRecordForDeletion_def isRecordMarkedForDeletion_def
      record_operation_def Let_def split: option.splits)

theorem marking_keeps_history_witness:
  "recordAt (patient loadedSession) 1 \<noteq> None \<and>
   patient (handleRemoveRecord 1 loadedSession) = patient loadedSession \<and>
   isRecordMarkedForDeletion (handleRemoveRecord 1 loadedSession) 1"
proof -
  have a: "recordAt (patient loadedSession) 1 \<noteq> None" by code_simp
  from marking_keeps_history [of 1 loadedSession] a show ?thesis by blast
qed

subsection \<open>Re-sorting the history\<close>

lemma sortNewestFirst_sorted: "newestFirst (sortNewestFirst h)"
proof -
  have "sorted (map (\<lambda>r. - getTime (timestamp r)) (sortNewestFirst h))"
    unfolding sortNewestFirst_def by (rule sorted_sort_key)
  then show ?thesis
    by (simp add: newestFirst_def sorted_map)
qed

lemma handleAddRecord_sorted:
  "\<exists>h. history (handleAddRecord newRecord prev) = Some h \<and> newestFirst h"
  by (simp add: handleAddRecord_def Let_def sortNewestFirst_sorted)

lemma handleUpdateRecordDate_sorted:
  assumes "handleUpdateRecordDate index newDate prev = Some p'" and "history prev \<noteq> None"
  shows "\<exists>h. history p' = Some h \<and> newestFirst h"
  using assms
  by (auto simp: handleUpdateRecordDate_def Let_def sortNewestFirst_sorted
      split: option.splits)

text \<open>
  C4. After an edit that changes the timestamp of a history record the history is sorted
  newest first. \<^verbatim>\<open>handleAddRecord\<close> and \<^verbatim>\<open>handleUpdateRecordDate\<close> re-sort it;
  \<^verbatim>\<open>handleUpdateRecord\<close> stores the record it is given and does not: replacing the newest
  record of the loaded patient (time values 2000 and 1000) by one with the time value 5
  leaves the history in the order 5, 1000.
\<close>

theorem updateRecord_leaves_history_unsorted:
  "map_option (\<lambda>p. map_option newestFirst (history p)) (Some (patient loadedSession))
     = Some (Some True) \<and>
   map_option (\<lambda>p. map_option (map (\<lambda>r. getTime (timestamp r))) (history p))
     (handleUpdateRecord 0 lateEdit (patient loadedSession)) = Some (Some [5, 1000]) \<and>
   map_option (\<lambda>p. map_option newestFirst (history p))
     (handleUpdateRecord 0 lateEdit (patient loadedSession)) = Some (Some False)"
  by code_simp

subsection \<open>The order of a save\<close>

lemma events_of_deletes:
  "list_all is_RemoteDelete (events_of rs) \<and> failed_deletes (events_of rs) = failures rs"
  by (induction rs) (auto simp: events_of_def failed_deletes_def failures_def)

lemma deleteAll_refs: "map fst (fst (deleteAll del us st)) = us"
proof (induction us arbitrary: st)
  case Nil
  show ?case by simp
next
  case (Cons u us)
  obtain ok st' where d: "del u st = (ok, st')" by (cases "del u st")
  obtain rs st'' where r: "deleteAll del us st' = (rs, st'')" by (cases "deleteAll del us st'")
  from Cons [of st'] r have "map fst rs = us" by simp
  with d r show ?case by simp
qed

lemma deleted_urls_events_of: "concat (map deleted_url (events_of rs)) = map fst rs"
  by (induction rs) (auto simp: events_of_def)

lemma commit_entry_applies:
  "\<exists>ds. trace (fst (commit_entry del e x)) = trace (fst x) @ ds \<and> list_all is_RemoteDelete ds
      \<and> concat (map deleted_url ds) = to_delete e
      \<and> persisted (fst (commit_entry del e x)) = persisted (fst x)
      \<and> orphaned (snd (commit_entry del e x)) = orphaned (snd x) @ failed_deletes ds"
proof (cases x)
  case (Pair s sm)
  show ?thesis
  proof (cases e)
    case (Attach i u)
    with Pair show ?thesis by (simp add: failed_deletes_def)
  next
    case (Detach i u)
    with Pair show ?thesis
      by (cases "del u (remote s)") (auto simp: failed_deletes_def Let_def)
  next
    case (DeleteRecord i us)
    obtain rs st' where r: "deleteAll del us (remote s) = (rs, st')"
      by (cases "deleteAll del us (remote s)")
    have "map fst rs = us"
      using deleteAll_refs [of del us "remote s"] r by simp
    with Pair DeleteRecord r show ?thesis
      by (auto simp: Let_def events_of_deletes deleted_urls_events_of failures_def)
  qed
qed

lemma commit_entries_applies:
  "\<exists>ds. trace (fst (commit_entries del es x)) = trace (fst x) @ ds \<and> list_all is_RemoteDelete ds
      \<and> concat (map deleted_url ds) = concat (map to_delete es)
      \<and> persisted (fst (commit_entries del es x)) = persisted (fst x)
      \<and> orphaned (snd (commit_entries del es x)) = orphaned (snd x) @ failed_deletes ds"
proof (induction es arbitrary: x)
  case Nil
  show ?case by (simp add: failed_deletes_def)
next
  case (Cons e es)
  from commit_entry_applies [of del e x] obtain ds where
    ds: "trace (fst (commit_entry del e x)) = trace (fst x) @ ds" "list_all is_RemoteDelete ds"
      "concat (map deleted_url ds) = to_delete e"
      "persisted (fst (commit_entry del e x)) = persisted (fst x)"
      "orphaned (snd (commit_entry del e x)) = orphaned (snd x) @ failed_deletes ds"
    by blast
  from Cons.IH [of "commit_entry del e x"] obtain ds' where
    ds': "trace (fst (commit_entries del es (commit_entry del e x)))
            = trace (fst (commit_entry del e x)) @ ds'" "list_all is_RemoteDelete ds'"
      "concat (map deleted_url ds') = concat (map to_delete es)"
      "persisted (fst (commit_entries del es (commit_entry del e x)))
            = persisted (fst (commit_entry del e x))"
      "orphaned (snd (commit_entries del es (commit_entry del e x)))
            = orphaned (snd (commit_entry del e x)) @ failed_deletes ds'"
    by blast
  show ?case
    by (rule exI [of _ "ds @ ds'"]) (simp add: ds ds' failed_deletes_def)
qed

lemma commitPendingOperations_applies:
  "\<exists>ds. trace (fst (commitPendingOperations del s)) = trace s @ ds \<and> list_all is_RemoteDelete ds
      \<and> concat (map deleted_url ds) = concat (map to_delete (pendingOperations s))
      \<and> persisted (fst (commitPendingOperations del s)) = persisted s
      \<and> orphaned (snd (commitPendingOperations del s)) = failed_deletes ds
      \<and> pendingOperations (fst (commitPendingOperations del s)) = []"
  using commit_entries_applies [of del "pendingOperations s" "(s, noCommits)"]
  by (cases "commit_entries del (pendingOperations s) (s, noCommits)")
     (simp add: commitPendingOperations_def noCommits_def)

text \<open>
  C3 as stated, that a save applies the log before it persists the buffer, fails: saving
  the edited session issues the persistence call first and the remote deletes of \<open>b\<close> and
  \<open>c\<close> after it.
\<close>

theorem save_applies_log_first_counterexample:
  "issued editedSession (handleSave (storage_delete []) (\<lambda>p. True) True editedSession)
     = [SavePatient (patientToSave editedSession) True, RemoteDelete ''b'' True,
        RemoteDelete ''c'' True] \<and>
   \<not> applied_before_persisted
       (issued editedSession (handleSave (storage_delete []) (\<lambda>p. True) True editedSession))"
  by code_simp

text \<open>
  C3, amended. A save that fails validation issues no call. A save that passes it first
  hands the buffer without the records marked for deletion to the persistence call. When
  that call fails nothing follows it and the log is kept. When it succeeds the copy is
  persisted, and after it the log is applied and cleared: the calls that follow are remote
  deletes, one for every \<open>Detach\<close> entry and for every attachment of every
  \<open>DeleteRecord\<close> entry, in the order of the log.
\<close>

theorem save_persists_before_applying_log:
  "trace (handleSave del updatePatient keepEditing s)
     = trace s @ issued s (handleSave del updatePatient keepEditing s) \<and>
   persisted_before_applied (issued s (handleSave del updatePatient keepEditing s)) \<and>
   (\<not> passes_validation s \<longrightarrow>
      issued s (handleSave del updatePatient keepEditing s) = [] \<and>
      persisted (handleSave del updatePatient keepEditing s) = persisted s \<and>
      pendingOperations (handleSave del updatePatient keepEditing s) = pendingOperations s) \<and>
   (passes_validation s \<and> \<not> updatePatient (patientToSave s) \<longrightarrow>
      issued s (handleSave del updatePatient keepEditing s)
        = [SavePatient (patientToSave s) False] \<and>
      persisted (handleSave del updatePatient keepEditing s) = persisted s \<and>
      pendingOperations (handleSave del updatePatient keepEditing s) = pendingOperations s) \<and>
   (passes_validation s \<and> updatePatient (patientToSave s) \<longrightarrow>
      take 1 (issued s (handleSave del updatePatient keepEditing s))
        = [SavePatient (patientToSave s) True] \<and>
      list_all is_RemoteDelete (drop 1 (issued s (handleSave del updatePatient keepEditing s))) \<and>
      concat (map deleted_url (issued s (handleSave del updatePatient keepEditing s)))
        = concat (map to_delete (pendingOperations s)) \<and>
      persisted (handleSave del updatePatient keepEditing s) = Some (patientToSave s) \<and>
      pendingOperations (handleSave del updatePatient keepEditing s) = [])"
proof -
  let ?s1 = "s\<lparr>isSaving := True,
                trace := trace s @ [SavePatient (patientToSave s) True],
                persisted := Some (patientToSave s)\<rparr>"
  from commitPendingOperations_applies [of del ?s1] obtain ds where
    ds: "trace (fst (commitPendingOperations del ?s1)) = trace ?s1 @ ds"
      "list_all is_RemoteDelete ds"
      "concat (map deleted_url ds) = concat (map to_delete (pendingOperations ?s1))"
      "persisted (fst (commitPendingOperations del ?s1)) = persisted ?s1"
      "pendingOperations (fst (commitPendingOperations del ?s1)) = []"
    by blast
  show ?thesis
  proof (cases "passes_validation s")
    case False
    then show ?thesis
      by (auto simp: passes_validation_def handleSave_def issued_def)
  next
    case True
    show ?thesis
    proof (cases "updatePatient (patientToSave s)")
      case False
      with True show ?thesis
        by (simp add: passes_validation_def handleSave_def issued_def handleDiscard_def Let_def)
    next
      case ok: True
      with True ds show ?thesis
        by (cases "commitPendingOperations del ?s1")
           (simp add: passes_validation_def handleSave_def issued_def Let_def)
    qed
  qed
qed

theorem save_persists_before_applying_log_witness:
  "passes_validation editedSession \<and>
   issued editedSession (handleSave (storage_delete [''c'']) (\<lambda>p. True) True editedSession)
     = [SavePatient (patientToSave editedSession) True, RemoteDelete ''b'' True,
        RemoteDelete ''c'' False] \<and>
   persisted (handleSave (storage_delete [''c'']) (\<lambda>p. True) True editedSession)
     = Some (patientToSave editedSession) \<and>
   issued editedSession (handleSave (storage_delete [''c'']) (\<lambda>p. False) True editedSession)
     = [SavePatient (patientToSave editedSession) False]"
proof -
  have v: "passes_validation editedSession" by code_simp
  have a: "issued editedSession (handleSave (storage_delete [''c'']) (\<lambda>p. True) True editedSession)
     = [SavePatient (patientToSave editedSession) True, RemoteDelete ''b'' True,
        RemoteDelete ''c'' False]" by code_simp
  from save_persists_before_applying_log
    [of "storage_delete [''c'']" "\<lambda>p. True" True editedSession] v
  have b: "persisted (handleSave (storage_delete [''c'']) (\<lambda>p. True) True editedSession)
     = Some (patientToSave editedSession)" by simp
  from save_persists_before_applying_log
    [of "storage_delete [''c'']" "\<lambda>p. False" True editedSession] v
  have c: "issued editedSession (handleSave (storage_delete [''c'']) (\<lambda>p. False) True editedSession)
     = [SavePatient (patientToSave editedSession) False]" by simp
  from v a b c show ?thesis by blast
qed

subsection \<open>The persisted copy\<close>

















text \<open>
  The second record of the loaded patient is marked and a newer record is added before the
  save. The re-sort moves the records and the mark stays at index 1: the save drops the
  record \<open>[a, b]\<close>, which was not marked, keeps the marked record \<open>[c]\<close>, and deletes \<open>c\<close>
  from storage.
\<close>

lemma mark_does_not_follow_a_resort:
  "pendingOperations resortedSession = [DeleteRecord 1 [''c'']] \<and>
   map_option attachments
     (persisted (handleSave (storage_delete []) (\<lambda>p. True) True resortedSession))
     = Some [''n'', ''c''] \<and>
   remote (handleSave (storage_delete []) (\<lambda>p. True) True resortedSession) = [''a'', ''b'']"
  by code_simp

subsection \<open>Cascading deletion\<close>

lemma outcomes_add_up: "succeeded rs + length (failures rs) = length rs"
  by (induction rs) (auto simp: succeeded_def failures_def)

lemma totalDocuments_attachments: "totalDocuments p = length (attachments p)"
proof -
  have "fold (\<lambda>r total. total + (case document_urls r of None \<Rightarrow> 0 | Some ds \<Rightarrow> length ds)) h n
        = n + length (concat (map (\<lambda>r. case document_urls r of None \<Rightarrow> [] | Some ds \<Rightarrow> ds) h))"
    for h :: "IHistoryRecord list" and n
    by (induction h arbitrary: n) (auto split: option.splits)
  then show ?thesis
    by (simp add: totalDocuments_def attachments_def split: option.splits)
qed

text \<open>
  C1. In a cascading deletion run the patient's database record is deleted if and only if
  \<open>forceDelete\<close> is true or no remote attachment delete failed. When \<open>forceDelete\<close> is
  false and a remote delete failed, the database is left as it was and the outcome has
  \<open>success = False\<close>; in both cases the outcome carries the counts of the sweep, which add
  up to the number of attachments.
\<close>

theorem cascade_deletes_record_iff_forced_or_clean:
  assumes "db (cid, patientId) = Some p"
  shows "(fst (snd (cascadeDelete del patientId cid forceDelete (db, st))) (cid, patientId) = None)
           = (forceDelete \<or> filesNotDeleted (fst (cascadeDelete del patientId cid forceDelete (db, st))) = 0) \<and>
         (\<not> forceDelete \<and> filesNotDeleted (fst (cascadeDelete del patientId cid forceDelete (db, st))) > 0
            \<longrightarrow> fst (snd (cascadeDelete del patientId cid forceDelete (db, st))) = db
              \<and> \<not> success (fst (cascadeDelete del patientId cid forceDelete (db, st)))) \<and>
         success (fst (cascadeDelete del patientId cid forceDelete (db, st)))
           = (forceDelete \<or> filesNotDeleted (fst (cascadeDelete del patientId cid forceDelete (db, st))) = 0) \<and>
         filesDeleted (fst (cascadeDelete del patientId cid forceDelete (db, st)))
           = succeeded (fst (deleteAll del (attachments p) st)) \<and>
         filesNotDeleted (fst (cascadeDelete del patientId cid forceDelete (db, st)))
           = length (failures (fst (deleteAll del (attachments p) st))) \<and>
         filesDeleted (fst (cascadeDelete del patientId cid forceDelete (db, st)))
           + filesNotDeleted (fst (cascadeDelete del patientId cid forceDelete (db, st)))
           = totalDocuments p"
proof -
  obtain rs st' where r: "deleteAll del (attachments p) st = (rs, st')"
    by (cases "deleteAll del (attachments p) st")
  have "length rs = length (attachments p)"
    using deleteAll_refs [of del "attachments p" st] r
    by (metis fst_conv length_map)
  then have "succeeded rs + length (failures rs) = totalDocuments p"
    by (simp add: outcomes_add_up totalDocuments_attachments)
  then show ?thesis
    using assms r by (simp add: cascadeDelete_def Let_def)
qed

theorem cascade_deletes_record_iff_forced_or_clean_witness:
  "[(''c1'', ''p1'') \<mapsto> storedPatient] (''c1'', ''p1'') = Some storedPatient \<and>
   fst (snd (cascadeDelete (storage_delete [''b'']) ''p1'' ''c1'' True
      ([(''c1'', ''p1'') \<mapsto> storedPatient], [''a'', ''b'', ''c'']))) (''c1'', ''p1'') = None \<and>
   fst (snd (cascadeDelete (storage_delete [''b'']) ''p1'' ''c1'' False
      ([(''c1'', ''p1'') \<mapsto> storedPatient], [''a'', ''b'', ''c'']))) (''c1'', ''p1'')
     = Some storedPatient \<and>
   \<not> success (fst (cascadeDelete (storage_delete [''b'']) ''p1'' ''c1'' False
      ([(''c1'', ''p1'') \<mapsto> storedPatient], [''a'', ''b'', ''c''])))"
proof -
  let ?db = "[(''c1'', ''p1'') \<mapsto> storedPatient]"
  have a: "?db (''c1'', ''p1'') = Some storedPatient" by simp
  have b: "filesNotDeleted (fst (cascadeDelete (storage_delete [''b'']) ''p1'' ''c1'' False
      (?db, [''a'', ''b'', ''c'']))) = 1" by code_simp
  from cascade_deletes_record_iff_forced_or_clean
    [where db = "?db" and cid = "''c1''" and patientId = "''p1''" and p = storedPatient
      and del = "storage_delete [''b'']" and forceDelete = True
      and st = "[''a'', ''b'', ''c'']", OF a]
  have c: "fst (snd (cascadeDelete (storage_delete [''b'']) ''p1'' ''c1'' True
      (?db, [''a'', ''b'', ''c'']))) (''c1'', ''p1'') = None" by blast
  from cascade_deletes_record_iff_forced_or_clean
    [where db = "?db" and cid = "''c1''" and patientId = "''p1''" and p = storedPatient
      and del = "storage_delete [''b'']" and forceDelete = False
      and st = "[''a'', ''b'', ''c'']", OF a] b
  have d: "fst (snd (cascadeDelete (storage_delete [''b'']) ''p1'' ''c1'' False
      (?db, [''a'', ''b'', ''c'']))) = ?db
    \<and> \<not> success (fst (cascadeDelete (storage_delete [''b'']) ''p1'' ''c1'' False
      (?db, [''a'', ''b'', ''c''])))" by simp
  from a c d show ?thesis by simp
qed

end
